theory Spec2Isabelle
  imports Complex_Main "HOL-Library.Word" "HOL-Library.Signed_Division"
begin

section \<open>Machine integers of the C sources\<close>

text \<open>
  The C type \<open>int\<close> is modelled as a 32-bit word. Arithmetic (\<open>+\<close>, \<open>-\<close>, \<open>*\<close>) wraps
  around in two's complement, which is what the specification calls the ``wrapping
  behaviour'' of the sources; \<open>sint\<close> reads a word as the signed integer it stands for, and
  the comparisons \<open>\<le>s\<close> and \<open><s\<close> are the signed comparisons of C.
\<close>

type_synonym c_int = "32 word"

text \<open>
  The C remainder \<open>a % b\<close> truncates towards zero (\<open>smod\<close> on \<open>int\<close>). It has no value
  when the divisor is zero or when \<open>INT_MIN % -1\<close> is asked for: the hardware traps there,
  and the model returns \<open>None\<close>.
\<close>

definition c_rem :: "c_int \<Rightarrow> c_int \<Rightarrow> c_int option" where
  "c_rem a b = (if b = 0 \<or> (a = - 2147483648 \<and> b = - 1) then None
                else Some (word_of_int (sint a smod sint b)))"


section \<open>math\_utils.c\<close>

subsection \<open>factorial\<close>

text \<open>
  \<^verbatim>\<open>int factorial(int n) { if (n <= 1) { return 1; } return n * factorial(n - 1); }\<close>
  The recursion is well-founded: \<open>n - 1\<close> is only computed for \<open>n > 1\<close>, where it does not
  wrap, so the signed value of the argument decreases.
\<close>

function (domintros) factorial :: "c_int \<Rightarrow> c_int" where
  "factorial n = (if n \<le>s 1 then 1 else n * factorial (n - 1))"
  by pat_completeness auto

termination factorial
proof (relation "measure (\<lambda>n. nat (sint n))")
  fix n :: c_int
  assume "\<not> n \<le>s 1"
  then have big: "1 < sint n" by (simp add: word_sle_eq)
  have "sint (n - 1) = sint n - 1"
    using big sint_range_size [of n]
    by (simp add: sint_word_ariths word_size signed_take_bit_int_eq_self)
  with big show "(n - 1, n) \<in> measure (\<lambda>n. nat (sint n))" by simp
qed simp

declare factorial.simps [simp del]


subsection \<open>is\_prime\<close>

text \<open>
  The loop \<^verbatim>\<open>for (int i = 3; i * i <= n; i += 2) { if (n % i == 0) return 0; }\<close>
  followed by \<^verbatim>\<open>return 1;\<close>. The product \<open>i * i\<close> and the step \<open>i += 2\<close> are machine
  operations. The loop is not bounded by a measure on all of its states, so it is a partial
  function: \<open>None\<close> stands for a call that returns no value (it runs forever, or the
  remainder traps).
\<close>

partial_function (option) is_prime_loop :: "c_int \<Rightarrow> c_int \<Rightarrow> c_int option" where
  "is_prime_loop n i =
     (if i * i \<le>s n
      then Option.bind (c_rem n i) (\<lambda>r. if r = 0 then Some 0 else is_prime_loop n (i + 2))
      else Some 1)"

declare is_prime_loop.simps [code]

definition is_prime :: "c_int \<Rightarrow> c_int option" where
  "is_prime n =
     (if n \<le>s 1 then Some 0
      else if n = 2 then Some 1
      else Option.bind (c_rem n 2) (\<lambda>r. if r = 0 then Some 0 else is_prime_loop n 3))"

subsection \<open>power\<close>

text \<open>
  \<^verbatim>\<open>int result = 1; for (int i = 0; i < exponent; i++) { result *= base; } return result;\<close>
  The loop state is the counter \<open>i\<close> and the accumulator \<open>result\<close>. The counter is only
  incremented below \<open>exponent\<close>, so it does not wrap and the distance to \<open>exponent\<close>
  decreases.
\<close>

function (domintros) power_loop :: "c_int \<Rightarrow> c_int \<Rightarrow> c_int \<Rightarrow> c_int \<Rightarrow> c_int" where
  "power_loop base exponent i result =
     (if i <s exponent then power_loop base exponent (i + 1) (result * base) else result)"
  by pat_completeness auto

termination power_loop
proof (relation "measure (\<lambda>(base, exponent, i, result). nat (sint exponent - sint i))")
  fix base exponent i result :: c_int
  assume "i <s exponent"
  then have lt: "sint i < sint exponent" by (simp add: word_sless_alt)
  have "sint (i + 1) = sint i + 1"
    using lt sint_range_size [of i] sint_range_size [of exponent]
    by (simp add: sint_word_ariths word_size signed_take_bit_int_eq_self)
  with lt show "((base, exponent, i + 1, result * base), (base, exponent, i, result))
      \<in> measure (\<lambda>(base, exponent, i, result). nat (sint exponent - sint i))"
    by simp
qed simp

declare power_loop.simps [simp del]

definition power :: "c_int \<Rightarrow> c_int \<Rightarrow> c_int" where
  "power base exponent = power_loop base exponent 0 1"


section \<open>main.c: the calculator's divide\<close>

text \<open>
  \<^verbatim>\<open>float divide(int a, int b) { if (b == 0) { printf(...); return 0.0; } return (float)a / b; }\<close>
  The function prints and divides, so the model returns the events of a call next to its
  result: \<open>Print s\<close> for a line written to the standard output, \<open>Divide a b\<close> for an
  evaluation of the division expression with the operands \<open>a\<close> and \<open>b\<close>. The type
  \<open>float\<close> and its operations (the conversion from \<open>int\<close>, the division, the constant
  \<open>0.0\<close>) are parameters of the model.
\<close>

datatype event = Print string | Divide c_int c_int

record 'f float_ops =
  of_c_int :: "c_int \<Rightarrow> 'f"
  fdiv :: "'f \<Rightarrow> 'f \<Rightarrow> 'f"
  fzero :: "'f"

definition divide :: "'f float_ops \<Rightarrow> c_int \<Rightarrow> c_int \<Rightarrow> event list \<times> 'f" where
  "divide F a b =
     (if b = 0 then ([Print (''Error: Division by zero!'' @ [CHR 0x0A])], fzero F)
      else ([Divide a b], fdiv F (of_c_int F a) (of_c_int F b)))"

text \<open>An instance of the float operations, for concrete evaluation: exact real arithmetic.\<close>

definition real_ops :: "real float_ops" where
  "real_ops = \<lparr>of_c_int = (\<lambda>w. real_of_int (sint w)), fdiv = (/), fzero = 0\<rparr>"


section \<open>The specification's notions of primality\<close>

text \<open>
  These two definitions follow the words of the specification, on mathematical integers.
  \<open>trial_division n\<close>: \<open>n\<close> has no divisor in the range \<open>[2, n - 1]\<close>.
  \<open>odd_trial_division n\<close>: none of the odd integers \<open>3, 5, 7, \<dots>\<close> up to and including
  \<open>floor (sqrt n)\<close> divides \<open>n\<close>; the bound is written \<open>d * d \<le> n\<close>, which is the same
  (lemma \<open>square_le_iff_le_floor_sqrt\<close>).
\<close>

definition trial_division :: "int \<Rightarrow> bool" where
  "trial_division n = (\<forall>d\<in>{2..n - 1}. \<not> d dvd n)"

definition odd_trial_division :: "int \<Rightarrow> bool" where
  "odd_trial_division n = (\<forall>d\<in>{3..n}. odd d \<and> d * d \<le> n \<longrightarrow> \<not> d dvd n)"

text \<open>
  An executable check used in the primality proof of \<open>2 ^ 31 - 1\<close>: none of the \<open>j\<close>
  candidates \<open>p, p + s, p + 2 * s, \<dots>\<close> divides \<open>m\<close>.
\<close>

fun no_factor_run :: "int \<Rightarrow> int \<Rightarrow> int \<Rightarrow> nat \<Rightarrow> bool" where
  "no_factor_run m s p 0 = True"
| "no_factor_run m s p (Suc j) = (m mod p \<noteq> 0 \<and> no_factor_run m s (p + s) j)"


section \<open>Facts about machine arithmetic\<close>

lemma sint_numeral_small [simp]:
  "sint (0 :: c_int) = 0" "sint (1 :: c_int) = 1" "sint (2 :: c_int) = 2" "sint (3 :: c_int) = 3"
  by simp_all

lemma sint_plus_exact:
  fixes a b :: c_int
  assumes "- 2147483648 \<le> sint a + sint b" "sint a + sint b < 2147483648"
  shows "sint (a + b) = sint a + sint b"
  using assms by (simp add: sint_word_ariths signed_take_bit_int_eq_self)

lemma sint_times_exact:
  fixes a b :: c_int
  assumes "- 2147483648 \<le> sint a * sint b" "sint a * sint b < 2147483648"
  shows "sint (a * b) = sint a * sint b"
  using assms by (simp add: sint_word_ariths signed_take_bit_int_eq_self)

lemma sint_bounds: "- 2147483648 \<le> sint (a :: c_int)" "sint (a :: c_int) < 2147483648"
  using sint_range_size [of a] by (simp_all add: word_size)

lemma sint_word_of_int_exact:
  "- 2147483648 \<le> k \<Longrightarrow> k < 2147483648 \<Longrightarrow> sint (word_of_int k :: c_int) = k"
  by (simp add: sint_sbintrunc' signed_take_bit_int_eq_self)

lemma c_rem_positive:
  assumes "0 \<le> sint a" "0 < sint b"
  shows "c_rem a b = Some (word_of_int (sint a mod sint b))"
proof -
  from assms have "b \<noteq> 0" "b \<noteq> - 1" by auto
  moreover from assms have "sint a smod sint b = sint a mod sint b"
    by (cases "sint a = 0") (simp_all add: smod_int_alt_def)
  ultimately show ?thesis by (simp add: c_rem_def)
qed

lemma c_rem_positive_zero_iff:
  assumes "0 \<le> sint a" "0 < sint b"
  shows "\<exists>r. c_rem a b = Some r \<and> (r = 0 \<longleftrightarrow> sint b dvd sint a)"
proof -
  let ?m = "sint a mod sint b"
  have m: "0 \<le> ?m" "?m < sint b" using assms by simp_all
  with sint_bounds [of b] have "sint (word_of_int ?m :: c_int) = ?m"
    by (intro sint_word_of_int_exact) linarith+
  then have "(word_of_int ?m :: c_int) = 0 \<longleftrightarrow> ?m = 0"
    by (metis sint_0 word_of_int_0)
  then show ?thesis using assms by (simp add: c_rem_positive mod_eq_0_iff_dvd)
qed


section \<open>factorial\<close>

text \<open>
  C3. \<open>factorial\<close> returns 1 for every \<open>n \<le> 1\<close>; for every \<open>n \<ge> 1\<close> it satisfies the
  recurrence \<open>factorial(n) == n * factorial(n - 1)\<close> (an equation between machine integers);
  and \<open>factorial(0) == 1\<close>, \<open>factorial(1) == 1\<close>, \<open>factorial(5) == 120\<close>.
\<close>

theorem factorial_spec:
  "(sint n \<le> 1 \<longrightarrow> factorial n = 1) \<and>
   (1 \<le> sint n \<longrightarrow> factorial n = n * factorial (n - 1)) \<and>
   factorial 0 = 1 \<and> factorial 1 = 1 \<and> factorial 5 = 120"
proof (intro conjI impI)
  show "factorial n = 1" if "sint n \<le> 1"
    using that by (subst factorial.simps) (simp add: word_sle_eq)
  show "factorial n = n * factorial (n - 1)" if "1 \<le> sint n"
  proof (cases "sint n = 1")
    case True
    then have "n = 1" by (intro signed_word_eqI) simp
    then show ?thesis by (simp add: factorial.simps [of 1] factorial.simps [of 0] word_sle_eq)
  next
    case False
    with that have "\<not> n \<le>s 1" by (simp add: word_sle_eq)
    then show ?thesis by (subst factorial.simps) simp
  qed
  show "factorial 0 = 1" "factorial 1 = 1" "factorial 5 = 120"
    by (simp_all add: factorial.simps word_sle_eq)
qed

theorem factorial_spec_witness:
  "sint (0 :: c_int) \<le> 1 \<and> factorial 0 = 1 \<and>
   1 \<le> sint (5 :: c_int) \<and> factorial 5 = 5 * factorial (5 - 1)"
  using factorial_spec [of 0] factorial_spec [of 5] by simp


section \<open>is\_prime: the cases before the loop, and termination\<close>



text \<open>
  C6. \<open>is_prime\<close> returns false for every \<open>n \<le> 1\<close> (all negative \<open>n\<close> and 0 included),
  true for \<open>n = 2\<close> and false for every even \<open>n > 2\<close>; and \<open>is_prime(2)\<close> and
  \<open>is_prime(17)\<close> are true, \<open>is_prime(18)\<close> is false.
\<close>

theorem is_prime_base_cases:
  "(sint n \<le> 1 \<longrightarrow> is_prime n = Some 0) \<and>
   is_prime 2 = Some 1 \<and>
   (2 < sint n \<and> even (sint n) \<longrightarrow> is_prime n = Some 0) \<and>
   is_prime 17 = Some 1 \<and> is_prime 18 = Some 0"
proof (intro conjI impI)
  show "is_prime n = Some 0" if "sint n \<le> 1"
    using that by (simp add: is_prime_def word_sle_eq)
  show "is_prime 2 = Some 1"
    by (simp add: is_prime_def word_sle_eq)
  show "is_prime n = Some 0" if "2 < sint n \<and> even (sint n)"
  proof -
    from that have n: "2 < sint n" "even (sint n)" by simp_all
    then have "n \<noteq> 2" by auto
    moreover obtain r where "c_rem n 2 = Some r" "r = 0 \<longleftrightarrow> 2 dvd sint n"
      using c_rem_positive_zero_iff [of n 2] n by auto
    ultimately show ?thesis using n by (simp add: is_prime_def word_sle_eq)
  qed
  show "is_prime 17 = Some 1" "is_prime 18 = Some 0"
    by (simp_all add: is_prime_def is_prime_loop.simps c_rem_def word_sle_eq)
qed

theorem is_prime_base_cases_witness:
  "sint (- 5 :: c_int) \<le> 1 \<and> is_prime (- 5) = Some 0 \<and>
   2 < sint (100 :: c_int) \<and> even (sint (100 :: c_int)) \<and> is_prime 100 = Some 0"
  using is_prime_base_cases [of "- 5"] is_prime_base_cases [of 100] by simp


section \<open>is\_prime against trial division\<close>

subsection \<open>Trial division up to the square root\<close>

lemma divisor_below_root:
  fixes n d :: int
  assumes "2 \<le> d" "d < n" "d dvd n"
  shows "\<exists>e. 2 \<le> e \<and> e * e \<le> n \<and> e dvd n"
proof -
  from assms obtain q where q: "n = d * q" by (auto elim: dvdE)
  have "0 < q"
  proof (rule ccontr)
    assume "\<not> 0 < q"
    then have "d * q \<le> 0" using assms(1) by (intro mult_nonneg_nonpos) simp_all
    with q assms show False by simp
  qed
  moreover have "q \<noteq> 1" using q assms by auto
  ultimately have "2 \<le> q" by simp
  show ?thesis
  proof (cases "d \<le> q")
    case True
    then have "d * d \<le> d * q" using assms by (intro mult_left_mono) simp_all
    with q assms show ?thesis by auto
  next
    case False
    then have "q * q \<le> d * q" using \<open>0 < q\<close> by (intro mult_right_mono) simp_all
    with q \<open>2 \<le> q\<close> show ?thesis by auto
  qed
qed

lemma odd_trial_division_iff:
  assumes "odd n" "3 \<le> n"
  shows "odd_trial_division n \<longleftrightarrow> trial_division n"
proof
  assume o: "odd_trial_division n"
  show "trial_division n"
    unfolding trial_division_def
  proof (intro ballI notI)
    fix d assume "d \<in> {2..n - 1}" "d dvd n"
    then obtain e where e: "2 \<le> e" "e * e \<le> n" "e dvd n"
      using divisor_below_root [of d n] by auto
    with assms have "odd e" by (meson dvd_trans)
    with e have "3 \<le> e" by (cases "e = 2") auto
    moreover have "e \<le> n" using e assms by (intro zdvd_imp_le) simp_all
    ultimately show False using o e \<open>odd e\<close> by (auto simp: odd_trial_division_def)
  qed
next
  assume t: "trial_division n"
  show "odd_trial_division n"
    unfolding odd_trial_division_def
  proof (intro ballI impI)
    fix d assume d: "d \<in> {3..n}" "odd d \<and> d * d \<le> n"
    then have "3 \<le> d" "d * d \<le> n" by simp_all
    moreover from \<open>3 \<le> d\<close> have "3 * d \<le> d * d" by (intro mult_right_mono) simp_all
    ultimately have "d < n" by linarith
    with d t show "\<not> d dvd n" by (auto simp: trial_division_def)
  qed
qed

lemma square_le_iff_le_floor_sqrt:
  fixes d n :: int
  assumes "0 \<le> d" "0 \<le> n"
  shows "d * d \<le> n \<longleftrightarrow> d \<le> \<lfloor>sqrt (real_of_int n)\<rfloor>"
proof -
  have "d \<le> \<lfloor>sqrt (real_of_int n)\<rfloor> \<longleftrightarrow> real_of_int d \<le> sqrt (real_of_int n)"
    by (simp add: le_floor_iff)
  also have "\<dots> \<longleftrightarrow> (real_of_int d)\<^sup>2 \<le> real_of_int n"
  proof
    assume "real_of_int d \<le> sqrt (real_of_int n)"
    then have "(real_of_int d)\<^sup>2 \<le> (sqrt (real_of_int n))\<^sup>2"
      using assms by (intro power_mono) simp_all
    then show "(real_of_int d)\<^sup>2 \<le> real_of_int n" using assms by simp
  next
    assume "(real_of_int d)\<^sup>2 \<le> real_of_int n"
    then show "real_of_int d \<le> sqrt (real_of_int n)" by (rule real_le_rsqrt)
  qed
  also have "\<dots> \<longleftrightarrow> d * d \<le> n"
    by (metis of_int_le_iff of_int_mult power2_eq_square)
  finally show ?thesis by simp
qed

subsection \<open>The loop\<close>

text \<open>
  The loop is followed with the invariant that no odd number from 3 below \<open>i\<close> divides
  \<open>n\<close>. The product \<open>i * i\<close> is exact up to \<open>i = 46340\<close>; from \<open>i = 46341\<close> on it wraps.
  An answer ``prime'' is right for every \<open>n\<close>; every prime below \<open>46339\<^sup>2 = 2147302921\<close>
  is answered ``prime''.
\<close>

lemma square_le_imp_small:
  fixes d :: int
  assumes "0 \<le> d" "d * d \<le> n" "n < 2147483648"
  shows "d \<le> 46340"
proof (rule ccontr)
  assume "\<not> d \<le> 46340"
  then have "46341 \<le> d" by simp
  then have "46341 * 46341 \<le> d * d" by (intro mult_mono) simp_all
  with assms show False by simp
qed

lemma sint_square_exact:
  fixes i :: c_int
  assumes "0 \<le> sint i" "sint i \<le> 46340"
  shows "sint (i * i) = sint i * sint i"
proof -
  have "sint i * sint i \<le> 46340 * 46340" using assms by (intro mult_mono) simp_all
  moreover have "0 \<le> sint i * sint i" by simp
  ultimately have "- 2147483648 \<le> sint i * sint i" "sint i * sint i < 2147483648"
    by linarith+
  then show ?thesis by (rule sint_times_exact)
qed

lemma is_prime_loop_step:
  assumes "i * i \<le>s n" "c_rem n i = Some r" "r \<noteq> 0"
  shows "is_prime_loop n i = is_prime_loop n (i + 2)"
  using assms by (subst is_prime_loop.simps) simp

lemma is_prime_loop_found:
  assumes "i * i \<le>s n" "c_rem n i = Some 0"
  shows "is_prime_loop n i = Some 0"
  using assms by (subst is_prime_loop.simps) simp

lemma is_prime_loop_exit:
  assumes "\<not> i * i \<le>s n"
  shows "is_prime_loop n i = Some 1"
  using assms by (subst is_prime_loop.simps) simp

lemma is_prime_loop_sound:
  assumes "3 \<le> sint i" "sint i \<le> sint n" "odd (sint i)" "odd (sint n)"
    and "\<forall>d. 3 \<le> d \<and> d < sint i \<and> odd d \<longrightarrow> \<not> d dvd sint n"
    and "is_prime_loop n i = Some 1"
  shows "odd_trial_division (sint n)"
  using assms
proof (induction "nat (sint n - sint i)" arbitrary: i rule: less_induct)
  case less
  obtain r where r: "c_rem n i = Some r" "r = 0 \<longleftrightarrow> sint i dvd sint n"
    using c_rem_positive_zero_iff [of n i] less.prems by auto
  show ?case
  proof (cases "i * i \<le>s n")
    case False
    have small: "d < sint i" if "3 \<le> d" "d * d \<le> sint n" for d
    proof (cases "sint i \<le> 46340")
      case True
      with less.prems have "sint (i * i) = sint i * sint i" by (intro sint_square_exact) simp_all
      with False have gt: "sint n < sint i * sint i" by (simp add: word_sle_eq)
      show ?thesis
      proof (rule ccontr)
        assume "\<not> d < sint i"
        then have "sint i * sint i \<le> d * d" using less.prems by (intro mult_mono) simp_all
        with gt that show False by simp
      qed
    next
      case False
      moreover have "d \<le> 46340"
        using that sint_bounds(2) [of n] by (intro square_le_imp_small [of d "sint n"]) simp_all
      ultimately show ?thesis by simp
    qed
    show ?thesis
      unfolding odd_trial_division_def
    proof (intro ballI impI)
      fix d assume "d \<in> {3..sint n}" "odd d \<and> d * d \<le> sint n"
      then have "3 \<le> d" "odd d" "d * d \<le> sint n" by simp_all
      with small [of d] less.prems(5) show "\<not> d dvd sint n" by blast
    qed
  next
    case True
    show ?thesis
    proof (cases "r = 0")
      case True
      with r \<open>i * i \<le>s n\<close> have "is_prime_loop n i = Some 0" by (simp add: is_prime_loop_found)
      with less.prems show ?thesis by simp
    next
      case False
      with r have nd: "\<not> sint i dvd sint n" by simp
      then have "sint i \<noteq> sint n" by auto
      with less.prems(2,3,4) have le: "sint i + 2 \<le> sint n" by presburger
      have s: "sint (i + 2) = sint i + 2"
        using sint_plus_exact [of i 2] sint_bounds [of n] less.prems le by simp
      have next_loop: "is_prime_loop n (i + 2) = Some 1"
        using is_prime_loop_step [OF True r(1) False] less.prems by simp
      have inv: "\<forall>d. 3 \<le> d \<and> d < sint (i + 2) \<and> odd d \<longrightarrow> \<not> d dvd sint n"
      proof (intro allI impI)
        fix d assume d: "3 \<le> d \<and> d < sint (i + 2) \<and> odd d"
        show "\<not> d dvd sint n"
        proof (cases "d < sint i")
          case True
          with d less.prems(5) show ?thesis by blast
        next
          case False
          with d s less.prems(3) have "d = sint i" by presburger
          with nd show ?thesis by simp
        qed
      qed
      show ?thesis
        using less.prems s le inv next_loop by (intro less.hyps [of "i + 2"]) simp_all
    qed
  qed
qed

lemma is_prime_loop_complete:
  assumes "3 \<le> sint i" "sint i \<le> 46339" "odd (sint i)" "sint n < 2147302921"
    and "odd_trial_division (sint n)"
  shows "is_prime_loop n i = Some 1"
  using assms
proof (induction "nat (46339 - sint i)" arbitrary: i rule: less_induct)
  case less
  have sq: "sint (i * i) = sint i * sint i"
    using less.prems by (intro sint_square_exact) simp_all
  show ?case
  proof (cases "i * i \<le>s n")
    case False
    then show ?thesis by (rule is_prime_loop_exit)
  next
    case True
    with sq have le: "sint i * sint i \<le> sint n" by (simp add: word_sle_eq)
    have "3 * sint i \<le> sint i * sint i" using less.prems by (intro mult_right_mono) simp_all
    with le less.prems(1) have "sint i \<le> sint n" by linarith
    with less.prems(1) have in_range: "sint i \<in> {3..sint n}" by simp
    with le less.prems have nd: "\<not> sint i dvd sint n"
      by (auto simp: odd_trial_division_def)
    obtain r where r: "c_rem n i = Some r" "r = 0 \<longleftrightarrow> sint i dvd sint n"
      using c_rem_positive_zero_iff [of n i] less.prems in_range by auto
    with nd have "r \<noteq> 0" by simp
    have "sint i \<noteq> 46339"
    proof
      assume "sint i = 46339"
      with le less.prems show False by simp
    qed
    with less.prems(2,3) have up: "sint i + 2 \<le> 46339" by presburger
    then have s: "sint (i + 2) = sint i + 2"
      using sint_plus_exact [of i 2] less.prems by simp
    have "is_prime_loop n (i + 2) = Some 1"
      using less.prems s up by (intro less.hyps) simp_all
    with is_prime_loop_step [OF True r(1) \<open>r \<noteq> 0\<close>] show ?thesis by simp
  qed
qed

lemma is_prime_sound:
  assumes "is_prime n = Some 1"
  shows "2 \<le> sint n \<and> trial_division (sint n)"
proof (cases "sint n \<le> 1 \<or> n = 2")
  case True
  with assms show ?thesis by (auto simp: is_prime_def word_sle_eq trial_division_def)
next
  case False
  then have n: "2 \<le> sint n" "n \<noteq> 2" by auto
  then have "sint n \<noteq> 2" by (metis sint_numeral_small(3) signed_word_eqI)
  with n have n3: "3 \<le> sint n" by simp
  obtain r where r: "c_rem n 2 = Some r" "r = 0 \<longleftrightarrow> 2 dvd sint n"
    using c_rem_positive_zero_iff [of n 2] n by auto
  from assms False r have "r \<noteq> 0" "is_prime_loop n 3 = Some 1"
    by (auto simp: is_prime_def word_sle_eq split: if_splits)
  with r have "odd (sint n)" by simp
  moreover have "\<forall>d. 3 \<le> d \<and> d < sint (3 :: c_int) \<and> odd d \<longrightarrow> \<not> d dvd sint n"
    by auto
  ultimately have "odd_trial_division (sint n)"
    using n3 \<open>is_prime_loop n 3 = Some 1\<close> by (intro is_prime_loop_sound [of 3 n]) simp_all
  with \<open>odd (sint n)\<close> n3 show ?thesis by (simp add: odd_trial_division_iff)
qed

lemma is_prime_complete_below_overflow:
  assumes "2 \<le> sint n" "sint n < 2147302921" "trial_division (sint n)"
  shows "is_prime n = Some 1"
proof (cases "n = 2")
  case True
  then show ?thesis by (simp add: is_prime_def word_sle_eq)
next
  case False
  then have "sint n \<noteq> 2" by (metis sint_numeral_small(3) signed_word_eqI)
  with assms have n3: "3 \<le> sint n" by simp
  have "odd (sint n)"
  proof
    assume "even (sint n)"
    with n3 assms(3) show False by (auto simp: trial_division_def)
  qed
  obtain r where r: "c_rem n 2 = Some r" "r = 0 \<longleftrightarrow> 2 dvd sint n"
    using c_rem_positive_zero_iff [of n 2] n3 by auto
  with \<open>odd (sint n)\<close> have "r \<noteq> 0" by simp
  have "odd_trial_division (sint n)"
    using assms(3) \<open>odd (sint n)\<close> n3 by (simp add: odd_trial_division_iff)
  then have "is_prime_loop n 3 = Some 1"
    using assms(2) by (intro is_prime_loop_complete) simp_all
  with r \<open>r \<noteq> 0\<close> False n3 show ?thesis by (simp add: is_prime_def word_sle_eq)
qed


section \<open>The prime \<open>2 ^ 31 - 1\<close>\<close>

text \<open>
  \<open>INT_MAX = 2 ^ 31 - 1 = 2147483647\<close> is prime. A least divisor \<open>p \<ge> 2\<close> of it is
  irreducible, so \<open>2 ^ (p - 1) mod p = 1\<close> (Fermat, from the binomial expansion of
  \<open>(1 + 1) ^ p\<close>); with \<open>2 ^ 31 mod p = 1\<close> the order argument gives \<open>31 dvd p - 1\<close>, so
  \<open>p = 62 * k + 1\<close>; the 747 such numbers up to the square root are checked by evaluation.
\<close>

lemma irreducible_dvd_choose:
  fixes p k :: nat
  assumes irr: "\<forall>d. d dvd p \<longrightarrow> d = 1 \<or> d = p" and k: "0 < k" "k < p"
  shows "p dvd (p choose k)"
proof -
  have "coprime p k"
  proof (rule coprimeI)
    fix c assume c: "c dvd p" "c dvd k"
    with irr have "c = 1 \<or> c = p" by blast
    moreover have "c \<noteq> p" using c(2) k by (auto dest: dvd_imp_le)
    ultimately show "is_unit c" by simp
  qed
  moreover have "k * (p choose k) = p * ((p - 1) choose (k - 1))"
    using k by (intro times_binomial_minus1_eq)
  then have "p dvd k * (p choose k)" by simp
  ultimately show ?thesis by (simp add: coprime_dvd_mult_right_iff)
qed

lemma irreducible_dvd_two_power:
  fixes p :: nat
  assumes irr: "\<forall>d. d dvd p \<longrightarrow> d = 1 \<or> d = p" and p: "2 \<le> p"
  shows "\<exists>m. 2 ^ p = 2 + p * m"
proof -
  have set: "{..p} = insert 0 (insert p {1..<p})" using p by auto
  have "(2::nat) ^ p = (\<Sum>k\<le>p. p choose k)" by (simp add: choose_row_sum)
  also have "\<dots> = (p choose 0) + ((p choose p) + (\<Sum>k\<in>{1..<p}. p choose k))"
    unfolding set using p by (subst sum.insert; simp)
  also have "\<dots> = 2 + (\<Sum>k\<in>{1..<p}. p choose k)" by simp
  finally have e: "(2::nat) ^ p = 2 + (\<Sum>k\<in>{1..<p}. p choose k)" .
  have "p dvd (\<Sum>k\<in>{1..<p}. p choose k)"
  proof (rule dvd_sum)
    fix k assume "k \<in> {1..<p}"
    then have "0 < k" "k < p" by simp_all
    then show "p dvd (p choose k)" by (rule irreducible_dvd_choose [OF irr])
  qed
  then obtain m where "(\<Sum>k\<in>{1..<p}. p choose k) = p * m" by (auto elim: dvdE)
  with e show ?thesis by auto
qed

lemma fermat_base_two:
  fixes p :: nat
  assumes irr: "\<forall>d. d dvd p \<longrightarrow> d = 1 \<or> d = p" and p: "2 \<le> p" and "odd p"
  shows "2 ^ (p - 1) mod p = 1"
proof -
  obtain m where m: "(2::nat) ^ p = 2 + p * m"
    using irreducible_dvd_two_power [OF irr p] by blast
  have "(2::nat) ^ p = 2 * 2 ^ (p - 1)" using p by (cases p) simp_all
  with m have "p * m = 2 * (2 ^ (p - 1) - 1)" by (simp add: algebra_simps)
  then have "p dvd 2 * (2 ^ (p - 1) - 1)" by (metis dvd_triv_left)
  moreover have "coprime p 2" using \<open>odd p\<close> by simp
  ultimately have "p dvd 2 ^ (p - 1) - 1" by (simp add: coprime_dvd_mult_right_iff)
  then obtain j where "(2::nat) ^ (p - 1) - 1 = p * j" by (auto elim: dvdE)
  moreover have "1 \<le> (2::nat) ^ (p - 1)" by simp
  ultimately have "(2::nat) ^ (p - 1) = p * j + 1" by linarith
  moreover have "(p * j + 1) mod p = 1 mod p" by (rule mod_mult_self4)
  moreover have "1 mod p = 1" using p by simp
  ultimately show ?thesis by simp
qed

lemma two_power_order_mod:
  fixes p a b :: nat
  assumes "2 ^ a mod p = 1" "2 ^ b mod p = 1" "0 < b"
  shows "2 ^ (a mod b) mod p = 1"
proof -
  have "(2::nat) ^ a = (2 ^ b) ^ (a div b) * 2 ^ (a mod b)"
    by (simp flip: power_mult power_add)
  then have "2 ^ a mod p = ((2 ^ b mod p) ^ (a div b) mod p * (2 ^ (a mod b) mod p)) mod p"
    by (simp add: mod_mult_eq power_mod)
  moreover have "p \<noteq> 1" using assms(1) by auto
  ultimately show ?thesis using assms by simp
qed

lemma two_power_order_gcd:
  fixes p a b :: nat
  assumes "2 ^ a mod p = 1" "2 ^ b mod p = 1"
  shows "2 ^ gcd a b mod p = 1"
  using assms
proof (induction a b rule: gcd_nat_induct)
  case (base m)
  then show ?case by simp
next
  case (step m n)
  then have "2 ^ (m mod n) mod p = 1" by (intro two_power_order_mod) simp_all
  with step have "2 ^ gcd n (m mod n) mod p = 1" by simp
  then show ?case by (simp add: gcd_red_nat [symmetric])
qed

lemma no_factor_run_sound:
  "no_factor_run m s p j \<Longrightarrow> i < j \<Longrightarrow> m mod (p + s * int i) \<noteq> 0"
proof (induction j arbitrary: p i)
  case 0
  then show ?case by simp
next
  case (Suc j)
  show ?case
  proof (cases i)
    case 0
    with Suc.prems show ?thesis by simp
  next
    case (Suc i')
    with Suc.prems have "m mod (p + s + s * int i') \<noteq> 0" by (intro Suc.IH) simp_all
    with Suc show ?thesis by (simp add: algebra_simps)
  qed
qed

lemma mersenne31_candidates: "no_factor_run 2147483647 62 63 747"
  by code_simp

lemma dvd_31_cases: "(g::nat) dvd 31 \<Longrightarrow> g = 1 \<or> g = 31"
proof -
  assume g: "g dvd 31"
  then have "g \<le> 31" by (auto dest: dvd_imp_le)
  then have "g \<in> set [0..<32]" by simp
  moreover have "\<forall>x\<in>set [0..<32]. x dvd (31::nat) \<longrightarrow> x = 1 \<or> x = 31" by code_simp
  ultimately show ?thesis using g by blast
qed

lemma mersenne31_factor_form:
  fixes p :: nat
  assumes irr: "\<forall>d. d dvd p \<longrightarrow> d = 1 \<or> d = p" and p: "2 \<le> p" and dvd: "p dvd 2147483647"
  shows "\<exists>k\<ge>1. p = 62 * k + 1"
proof -
  have "odd p"
  proof
    assume "even p"
    then have "even (2147483647::nat)" using dvd by (rule dvd_trans)
    then show False by simp
  qed
  from dvd obtain j where j: "(2147483647::nat) = p * j" unfolding dvd_def by blast
  have "(2::nat) ^ 31 = 2147483647 + 1" by simp
  also have "\<dots> = p * j + 1" using j by simp
  finally have "(2::nat) ^ 31 mod p = (p * j + 1) mod p" by simp
  also have "\<dots> = 1 mod p" by (rule mod_mult_self4)
  also have "\<dots> = 1" using p by simp
  finally have a: "(2::nat) ^ 31 mod p = 1" .
  have b: "(2::nat) ^ (p - 1) mod p = 1" by (rule fermat_base_two [OF irr p \<open>odd p\<close>])
  have g: "(2::nat) ^ gcd 31 (p - 1) mod p = 1" by (rule two_power_order_gcd [OF a b])
  have "gcd 31 (p - 1) = 1 \<or> gcd 31 (p - 1) = 31" by (rule dvd_31_cases) simp
  moreover have "gcd 31 (p - 1) \<noteq> 1"
  proof
    assume "gcd 31 (p - 1) = 1"
    with g have "(2::nat) mod p = 1" by simp
    moreover have "3 \<le> p" using p \<open>odd p\<close> by (cases "p = 2") auto
    ultimately show False by simp
  qed
  ultimately have "gcd 31 (p - 1) = 31" by simp
  then have "31 dvd p - 1" by (metis gcd_dvd2)
  then obtain t where t: "p - 1 = 31 * t" by (auto elim: dvdE)
  with p have pt: "p = 31 * t + 1" by simp
  with \<open>odd p\<close> have "even t" by simp
  then obtain k where "t = 2 * k" by (auto elim: evenE)
  with pt p have "p = 62 * k + 1" "1 \<le> k" by auto
  then show ?thesis by blast
qed

lemma mersenne31_trial_division: "trial_division 2147483647"
  unfolding trial_division_def
proof (intro ballI notI)
  fix d :: int
  assume d: "d \<in> {2..2147483647 - 1}" "d dvd 2147483647"
  then obtain e :: int where e: "2 \<le> e" "e * e \<le> 2147483647" "e dvd 2147483647"
    using divisor_below_root [of d 2147483647] by auto
  define S where "S = (\<lambda>x::nat. 2 \<le> x \<and> x dvd 2147483647)"
  define p where "p = (LEAST x. S x)"
  have "int (nat e) dvd int 2147483647" using e by simp
  then have "nat e dvd 2147483647" by (simp only: int_dvd_int_iff)
  with e have "S (nat e)" by (simp add: S_def)
  then have Sp: "S p" and least: "p \<le> nat e"
    unfolding p_def by (rule LeastI, rule Least_le)
  have p2: "2 \<le> p" and pdvd: "p dvd 2147483647" using Sp by (simp_all add: S_def)
  have irr: "\<forall>c. c dvd p \<longrightarrow> c = 1 \<or> c = p"
  proof (intro allI impI)
    fix c assume c: "c dvd p"
    show "c = 1 \<or> c = p"
    proof (cases "2 \<le> c")
      case True
      moreover have "c dvd 2147483647" using c pdvd by (rule dvd_trans)
      ultimately have "S c" by (simp add: S_def)
      then have "p \<le> c" unfolding p_def by (rule Least_le)
      moreover have "c \<le> p" using c p2 by (intro dvd_imp_le) simp_all
      ultimately show ?thesis by simp
    next
      case False
      moreover have "c \<noteq> 0"
      proof
        assume "c = 0"
        with c have "p = 0" by simp
        with p2 show False by simp
      qed
      ultimately show ?thesis by simp
    qed
  qed
  obtain k where k: "1 \<le> k" "p = 62 * k + 1"
    using mersenne31_factor_form [OF irr p2 pdvd] by blast
  have "int p * int p \<le> e * e" using least e by (intro mult_mono) simp_all
  with e have sq: "int p * int p \<le> 2147483647" by simp
  have "p \<le> 46340"
  proof (rule ccontr)
    assume "\<not> p \<le> 46340"
    then have "46341 \<le> int p" by simp
    then have "46341 * 46341 \<le> int p * int p" by (intro mult_mono) simp_all
    with sq show False by simp
  qed
  with k have "k - 1 < 747" by simp
  with mersenne31_candidates have "2147483647 mod (63 + 62 * int (k - 1)) \<noteq> 0"
    by (rule no_factor_run_sound)
  moreover have "63 + 62 * int (k - 1) = int p" using k by simp
  ultimately have "\<not> int p dvd 2147483647" by (simp add: dvd_eq_mod_eq_0)
  moreover have "int p dvd int 2147483647" using pdvd by (simp only: int_dvd_int_iff)
  ultimately show False by simp
qed

lemma mersenne31_odd_trial_division: "odd_trial_division 2147483647"
  using mersenne31_trial_division by (simp add: odd_trial_division_iff)


section \<open>is\_prime at \<open>INT_MAX\<close>\<close>

text \<open>
  For \<open>n = INT_MAX\<close> the guard \<open>i * i <= n\<close> holds for every machine integer, so the loop
  can only leave through \<open>return 0\<close>, which it does at \<open>i = n\<close> at the latest.
\<close>

lemma is_prime_loop_guard_always:
  assumes "3 \<le> sint i" "odd (sint i)"
  shows "is_prime_loop 2147483647 i = Some 0"
  using assms
proof (induction "nat (2147483647 - sint i)" arbitrary: i rule: less_induct)
  case less
  let ?n = "2147483647 :: c_int"
  have n: "sint ?n = 2147483647" by simp
  have guard: "i * i \<le>s ?n" using sint_bounds(2) [of "i * i"] by (simp add: word_sle_eq)
  have le: "sint i \<le> sint ?n" using sint_bounds(2) [of i] by simp
  obtain r where r: "c_rem ?n i = Some r" "r = 0 \<longleftrightarrow> sint i dvd sint ?n"
    using c_rem_positive_zero_iff [of ?n i] less.prems by auto
  show ?case
  proof (cases "r = 0")
    case True
    then show ?thesis using r guard by (subst is_prime_loop.simps) simp
  next
    case False
    with r have "sint i \<noteq> sint ?n" by auto
    with le less.prems have step: "sint i + 2 \<le> 2147483647" unfolding n by presburger
    then have s: "sint (i + 2) = sint i + 2"
      using sint_plus_exact [of i 2] less.prems by simp
    have "is_prime_loop ?n (i + 2) = Some 0"
      using less.prems s step by (intro less.hyps) simp_all
    then show ?thesis using False r guard by (subst is_prime_loop.simps) simp
  qed
qed

lemma is_prime_INT_MAX: "is_prime 2147483647 = Some 0"
proof -
  have "c_rem 2147483647 2 = Some 1" by (simp add: c_rem_def smod_int_alt_def)
  moreover have "is_prime_loop 2147483647 3 = Some 0"
    by (rule is_prime_loop_guard_always) simp_all
  ultimately show ?thesis by (simp add: is_prime_def word_sle_eq)
qed

text \<open>
  C1 claims that for every \<open>n \<ge> 2\<close>, \<open>is_prime(n)\<close> is true if and only if \<open>n\<close> has no
  divisor in \<open>[2, n - 1]\<close>. The code breaks this at \<open>n = 2147483647\<close>: the number has no
  divisor in that range, and \<open>is_prime\<close> returns 0.
\<close>

theorem is_prime_rejects_prime_INT_MAX:
  "sint (2147483647 :: c_int) = 2147483647 \<and> trial_division 2147483647 \<and>
   is_prime 2147483647 = Some 0"
  by (simp add: mersenne31_trial_division is_prime_INT_MAX)

theorem is_prime_rejects_prime_INT_MAX_witness:
  "\<not> (46339 :: int) dvd 2147483647 \<and> is_prime 2147483647 = Some 0"
  using is_prime_rejects_prime_INT_MAX by (simp add: trial_division_def)

text \<open>
  C2 claims that for every odd \<open>n > 2\<close>, \<open>is_prime(n)\<close> trial-divides by the odd integers
  from 3 up to and including \<open>floor (sqrt n)\<close> and returns true if none of them divides
  \<open>n\<close>. The code breaks this at \<open>n = 2147483647\<close>: none of these integers divides \<open>n\<close>,
  but at \<open>i = 46341\<close>, beyond the square root, the wrapped product \<open>i * i\<close> still passes
  the guard, and the loop started at 3 returns 0.
\<close>

theorem is_prime_INT_MAX_divides_past_root:
  "odd_trial_division 2147483647 \<and>
   (2147483647 :: int) < 46341 * 46341 \<and>
   sint (46341 * 46341 :: c_int) = - 2147479015 \<and>
   (46341 * 46341 :: c_int) \<le>s 2147483647 \<and>
   is_prime_loop 2147483647 3 = Some 0 \<and> is_prime 2147483647 = Some 0"
proof -
  have "is_prime_loop 2147483647 3 = Some 0"
    by (rule is_prime_loop_guard_always) simp_all
  then show ?thesis
    by (simp add: mersenne31_odd_trial_division is_prime_INT_MAX word_sle_eq)
qed

theorem is_prime_INT_MAX_divides_past_root_witness:
  "\<not> (46339 :: int) dvd 2147483647 \<and> is_prime 2147483647 = Some 0"
  using is_prime_INT_MAX_divides_past_root by (simp add: odd_trial_division_def)


section \<open>power\<close>

lemma power_loop_done: "\<not> sint i < sint exponent \<Longrightarrow> power_loop base exponent i result = result"
  by (subst power_loop.simps) (simp add: word_sless_alt)

lemma power_loop_step:
  "sint i < sint exponent \<Longrightarrow>
   power_loop base exponent i result = power_loop base exponent (i + 1) (result * base)"
  by (subst power_loop.simps) (simp add: word_sless_alt)

text \<open>
  C5. For every base, \<open>power(base, exponent)\<close> returns 1 whenever \<open>exponent \<le> 0\<close>: the loop
  body never executes and the accumulator, still 1, is returned.
\<close>

theorem power_nonpositive_exponent: "sint exponent \<le> 0 \<Longrightarrow> power base exponent = 1"
  by (simp add: power_def power_loop_done)

theorem power_nonpositive_exponent_witness:
  "sint (- 3 :: c_int) \<le> 0 \<and> power 2 (- 3) = 1 \<and> sint (0 :: c_int) \<le> 0 \<and> power 7 0 = 1"
  using power_nonpositive_exponent [of "- 3" 2] power_nonpositive_exponent [of 0 7] by simp

lemma power_loop_base_one: "power_loop 1 exponent i 1 = 1"
proof (induction "nat (sint exponent - sint i)" arbitrary: i)
  case 0
  then show ?case by (simp add: power_loop_done)
next
  case (Suc k)
  then have lt: "sint i < sint exponent" by simp
  have "sint (i + 1) = sint i + 1"
    using lt sint_range_size [of i] sint_range_size [of exponent]
    by (simp add: sint_word_ariths word_size signed_take_bit_int_eq_self)
  with Suc have "power_loop 1 exponent (i + 1) 1 = 1" by simp
  with lt show ?case by (simp add: power_loop_step)
qed

text \<open>
  C10. \<open>power(base, 1) == base\<close> for every base, and \<open>power(1, exponent) == 1\<close> for every
  exponent.
\<close>

theorem power_identities: "power base 1 = base \<and> power 1 exponent = 1"
  by (simp add: power_def power_loop_base_one power_loop_step power_loop_done)

lemma power_loop_closed_form:
  "sint i \<le> sint exponent \<Longrightarrow>
   power_loop base exponent i result = result * base ^ nat (sint exponent - sint i)"
proof (induction "nat (sint exponent - sint i)" arbitrary: i result)
  case 0
  then show ?case by (simp add: power_loop_done)
next
  case (Suc k)
  then have lt: "sint i < sint exponent" by simp
  have s: "sint (i + 1) = sint i + 1"
    using lt sint_bounds [of exponent] sint_bounds [of i] sint_plus_exact [of i 1] by simp
  with Suc have "power_loop base exponent (i + 1) (result * base)
      = result * base * base ^ nat (sint exponent - sint (i + 1))" by simp
  moreover have "nat (sint exponent - sint i) = Suc (nat (sint exponent - sint (i + 1)))"
    using lt s by simp
  ultimately show ?case using lt by (simp add: power_loop_step)
qed

lemma power_as_word_power: "0 \<le> sint exponent \<Longrightarrow> power base exponent = base ^ nat (sint exponent)"
  by (simp add: power_def power_loop_closed_form)

text \<open>
  C4. For every base and every exponent \<open>\<ge> 0\<close> whose mathematical result
  \<open>base ^ exponent\<close> is representable in the machine integer type,
  \<open>power(base, exponent)\<close> returns \<open>base\<close> raised to \<open>exponent\<close>; and
  \<open>power(2, 10) == 1024\<close>, \<open>power(3, 3) == 27\<close>.
\<close>

theorem power_spec:
  assumes "0 \<le> sint exponent"
    and "- 2147483648 \<le> sint base ^ nat (sint exponent)"
    and "sint base ^ nat (sint exponent) \<le> 2147483647"
  shows "sint (power base exponent) = sint base ^ nat (sint exponent) \<and>
         power 2 10 = 1024 \<and> power 3 3 = 27"
proof -
  have "base ^ nat (sint exponent) = word_of_int (sint base ^ nat (sint exponent))"
    by simp
  then have "sint (base ^ nat (sint exponent)) = sint base ^ nat (sint exponent)"
    using assms(2,3) sint_word_of_int_exact [of "sint base ^ nat (sint exponent)"] by simp
  moreover have "power 2 10 = 1024" "power 3 3 = 27"
    by (simp_all add: power_def power_loop.simps word_sless_alt)
  ultimately show ?thesis using assms(1) by (simp add: power_as_word_power)
qed

theorem power_spec_witness:
  "0 \<le> sint (5 :: c_int) \<and> - 2147483648 \<le> sint (- 3 :: c_int) ^ nat (sint (5 :: c_int)) \<and>
   sint (- 3 :: c_int) ^ nat (sint (5 :: c_int)) \<le> 2147483647 \<and>
   sint (power (- 3) 5) = - 243"
  using power_spec [of 5 "- 3"] by simp


section \<open>Totality\<close>








section \<open>divide\<close>

text \<open>
  C9. \<open>divide\<close> never divides by zero: \<open>divide(a, 0)\<close> takes the guarded branch (it prints
  the error line) and returns \<open>0.0\<close>; for \<open>b \<noteq> 0\<close> it returns the float quotient
  \<open>(float)a / b\<close>; and every evaluation of the division has a divisor \<open>b \<noteq> 0\<close>.
\<close>

theorem divide_guarded:
  "divide F a 0 = ([Print (''Error: Division by zero!'' @ [CHR 0x0A])], fzero F) \<and>
   (b \<noteq> 0 \<longrightarrow> divide F a b = ([Divide a b], fdiv F (of_c_int F a) (of_c_int F b))) \<and>
   (\<forall>x y. Divide x y \<in> set (fst (divide F a b)) \<longrightarrow> y \<noteq> 0)"
  by (simp add: divide_def)

theorem divide_guarded_witness:
  "(2 :: c_int) \<noteq> 0 \<and> divide real_ops 7 2 = ([Divide 7 2], 7 / 2) \<and>
   Divide 7 2 \<in> set (fst (divide real_ops 7 2)) \<and>
   divide real_ops 7 0 = ([Print (''Error: Division by zero!'' @ [CHR 0x0A])], 0)"
  using divide_guarded [of real_ops 7 2] divide_guarded [of real_ops 7 0]
  by (simp add: real_ops_def)

end
